theory Spec2Isabelle
  imports Main "HOL-Library.Word"
begin

unbundle bit_operations_syntax

section \<open>Data model\<close>

text \<open>
  The sharded LRU cache of \<^verbatim>\<open>pkg/cache\<close>. An \<^verbatim>\<open>entry\<close> is a key with its value.
  A \<^verbatim>\<open>*list.Element\<close> is modelled by its address (a natural number): the shard's map
  \<^verbatim>\<open>data\<close> sends a key to such an address, the list \<^verbatim>\<open>lru\<close> is the sequence of the
  addresses linked into the \<^verbatim>\<open>container/list\<close> list (front first), and \<^verbatim>\<open>store\<close> is
  the heap: the \<^verbatim>\<open>*entry\<close> held in \<^verbatim>\<open>Element.Value\<close> at each allocated address.
  \<^verbatim>\<open>fresh\<close> is the next address the allocator hands out. The field \<^verbatim>\<open>value\<close> of an
  entry is named \<open>val\<close>. Go's \<^verbatim>\<open>int\<close> is \<open>int\<close>; the one conversion that truncates,
  \<^verbatim>\<open>uint32(sc.shardCount)\<close>, is written out.
\<close>

record entry =
  key :: string
  val :: string

type_synonym elem = nat

record Shard =
  data :: "string \<rightharpoonup> elem"
  lru :: "elem list"
  store :: "elem \<rightharpoonup> entry"
  fresh :: elem
  capacity :: int

text \<open>
  \<open>NotFound\<close> is the error value \<^verbatim>\<open>errors.New("key not found")\<close>; the others are the
  run-time panics the source can raise: a failed type assertion \<^verbatim>\<open>elem.Value.(*entry)\<close>,
  an integer division by zero, an index out of range and \<^verbatim>\<open>make\<close> with a length out of
  range.
\<close>

datatype error =
  NotFound
  | TypeAssertionPanic
  | DivideByZeroPanic
  | IndexOutOfRangePanic
  | MakeSlicePanic

definition bind_err :: "error + 'a \<Rightarrow> ('a \<Rightarrow> error + 'b) \<Rightarrow> error + 'b" where
  "bind_err m f = (case m of Inl e \<Rightarrow> Inl e | Inr x \<Rightarrow> f x)"

section \<open>The operations of container/list that the shard uses\<close>

text \<open>
  \<^verbatim>\<open>MoveToFront\<close> returns at once when the element is not of this list or is already
  its first element; \<^verbatim>\<open>Remove\<close> unlinks the element when it is of this list;
  \<^verbatim>\<open>Back\<close> is \<^verbatim>\<open>nil\<close> on the empty list.
\<close>

definition MoveToFront :: "elem \<Rightarrow> elem list \<Rightarrow> elem list" where
  "MoveToFront e l =
     (if e \<notin> set l then l else if hd l = e then l else e # remove1 e l)"

definition Remove :: "elem \<Rightarrow> elem list \<Rightarrow> elem list" where
  "Remove e l = (if e \<in> set l then remove1 e l else l)"

definition PushFront :: "elem \<Rightarrow> elem list \<Rightarrow> elem list" where
  "PushFront e l = e # l"

definition Back :: "elem list \<Rightarrow> elem option" where
  "Back l = (if l = [] then None else Some (last l))"

definition Len :: "elem list \<Rightarrow> int" where
  "Len l = int (length l)"

section \<open>Shard\<close>

text \<open>
  The methods of \<^verbatim>\<open>Shard\<close>, statement by statement. Each runs under the shard's mutex
  from its first statement to its return, so it is one step on the shard's state.
  \<^item> \<^verbatim>\<open>evict\<close>: nothing on the empty list; else the key of the last element's entry
    leaves the map and the element leaves the list.
  \<^item> \<^verbatim>\<open>set\<close>: for a key of the map, the entry's value is overwritten and the element
    moved to the front; else, when \<^verbatim>\<open>capacity > 0 && lru.Len() >= capacity\<close>, \<^verbatim>\<open>evict\<close>
    runs first, and a new element holding the entry is pushed at the front and put in
    the map.
  \<^item> \<^verbatim>\<open>get\<close>: for a key of the map, the element is moved to the front and the entry's
    value returned; else the error, with the shard untouched. The result is paired with
    the shard after the call.
  \<^item> \<^verbatim>\<open>delete\<close>: for a key of the map, the element leaves the list and the key the
    map; else nothing.
\<close>

definition newShard :: "int \<Rightarrow> Shard" where
  "newShard c = \<lparr>data = Map.empty, lru = [], store = Map.empty, fresh = 0, capacity = c\<rparr>"

definition shard_evict :: "Shard \<Rightarrow> error + Shard" where
  "shard_evict s =
     (case Back (lru s) of
        None \<Rightarrow> Inr s
      | Some el \<Rightarrow>
          (case store s el of
             None \<Rightarrow> Inl TypeAssertionPanic
           | Some ent \<Rightarrow>
               Inr (s\<lparr>data := (data s)(key ent := None), lru := Remove el (lru s)\<rparr>)))"

definition shard_set :: "Shard \<Rightarrow> string \<Rightarrow> string \<Rightarrow> error + Shard" where
  "shard_set s k v =
     (case data s k of
        Some el \<Rightarrow>
          (case store s el of
             None \<Rightarrow> Inl TypeAssertionPanic
           | Some ent \<Rightarrow>
               Inr (s\<lparr>store := (store s)(el \<mapsto> ent\<lparr>val := v\<rparr>),
                       lru := MoveToFront el (lru s)\<rparr>))
      | None \<Rightarrow>
          bind_err
            (if capacity s > 0 \<and> Len (lru s) \<ge> capacity s then shard_evict s else Inr s)
            (\<lambda>s1. let el = fresh s1 in
               Inr (s1\<lparr>store := (store s1)(el \<mapsto> \<lparr>key = k, val = v\<rparr>),
                        lru := PushFront el (lru s1),
                        data := (data s1)(k \<mapsto> el),
                        fresh := Suc el\<rparr>)))"

definition shard_get :: "Shard \<Rightarrow> string \<Rightarrow> (error + string) \<times> Shard" where
  "shard_get s k =
     (case data s k of
        Some el \<Rightarrow>
          (let s1 = s\<lparr>lru := MoveToFront el (lru s)\<rparr> in
           case store s1 el of
             None \<Rightarrow> (Inl TypeAssertionPanic, s1)
           | Some ent \<Rightarrow> (Inr (val ent), s1))
      | None \<Rightarrow> (Inl NotFound, s))"

definition shard_delete :: "Shard \<Rightarrow> string \<Rightarrow> Shard" where
  "shard_delete s k =
     (case data s k of
        Some el \<Rightarrow> s\<lparr>lru := Remove el (lru s), data := (data s)(k := None)\<rparr>
      | None \<Rightarrow> s)"

section \<open>ShardedCache\<close>

record ShardedCache =
  shards :: "Shard list"
  shardCount :: int
  shardCapacity :: int

text \<open>
  An \<^verbatim>\<open>Option\<close> is a function that configures the cache under construction, as in
  the source; its argument is the cache the pointer \<^verbatim>\<open>sc\<close> refers to and its result is
  that cache after the call.
\<close>

type_synonym Option = "ShardedCache \<Rightarrow> ShardedCache"

definition WithShardCount :: "int \<Rightarrow> Option" where
  "WithShardCount n = (\<lambda>sc. if n > 0 then sc\<lparr>shardCount := n\<rparr> else sc)"

definition WithShardCapacity :: "int \<Rightarrow> Option" where
  "WithShardCapacity c = (\<lambda>sc. if c > 0 then sc\<lparr>shardCapacity := c\<rparr> else sc)"

text \<open>
  \<^verbatim>\<open>make([]*Shard, sc.shardCount)\<close> panics with \<^verbatim>\<open>makeslice: len out of range\<close> on
  a negative length and on a length whose 8-byte pointers exceed the allocation limit of
  a 64-bit platform, \<open>2 ^ 48\<close> bytes, that is on a length above \<open>2 ^ 45\<close>. The loop then
  stores a new shard of the configured capacity at every index.
\<close>

definition NewShardedCache :: "Option list \<Rightarrow> error + ShardedCache" where
  "NewShardedCache opts =
     (let sc = foldl (\<lambda>sc opt. opt sc) \<lparr>shards = [], shardCount = 16, shardCapacity = 100\<rparr> opts
      in if shardCount sc < 0 \<or> 2 ^ 45 < shardCount sc then Inl MakeSlicePanic
         else Inr (sc\<lparr>shards := replicate (nat (shardCount sc)) (newShard (shardCapacity sc))\<rparr>))"

text \<open>
  \<^verbatim>\<open>hash/fnv\<close>'s 32-bit FNV-1a: from the offset basis, every byte of the key is xor-ed
  into the hash, which is then multiplied by the FNV prime, all modulo \<open>2 ^ 32\<close>.
\<close>

definition fnv32a :: "string \<Rightarrow> 32 word" where
  "fnv32a s = foldl (\<lambda>h c. (h XOR of_char c) * 16777619) 2166136261 s"

text \<open>
  \<^verbatim>\<open>getShard\<close> returns the index of the selected shard (the source returns the pointer
  stored at that index). \<^verbatim>\<open>uint32(sc.shardCount)\<close> keeps the low 32 bits of the count.
\<close>

definition getShard :: "ShardedCache \<Rightarrow> string \<Rightarrow> error + nat" where
  "getShard sc k =
     (let d = (word_of_int (shardCount sc) :: 32 word) in
      if d = 0 then Inl DivideByZeroPanic
      else let idx = unat (fnv32a k mod d) in
        if idx < length (shards sc) then Inr idx else Inl IndexOutOfRangePanic)"

definition Set :: "ShardedCache \<Rightarrow> string \<Rightarrow> string \<Rightarrow> error + ShardedCache" where
  "Set sc k v =
     bind_err (getShard sc k) (\<lambda>i.
     bind_err (shard_set (shards sc ! i) k v) (\<lambda>s'.
       Inr (sc\<lparr>shards := (shards sc)[i := s']\<rparr>)))"

definition Get :: "ShardedCache \<Rightarrow> string \<Rightarrow> (error + string) \<times> ShardedCache" where
  "Get sc k =
     (case getShard sc k of
        Inl e \<Rightarrow> (Inl e, sc)
      | Inr i \<Rightarrow>
          (let (r, s') = shard_get (shards sc ! i) k
           in (r, sc\<lparr>shards := (shards sc)[i := s']\<rparr>)))"

definition Delete :: "ShardedCache \<Rightarrow> string \<Rightarrow> error + ShardedCache" where
  "Delete sc k =
     bind_err (getShard sc k) (\<lambda>i.
       Inr (sc\<lparr>shards := (shards sc)[i := shard_delete (shards sc ! i) k]\<rparr>))"

section \<open>Sequences of calls, reachable states and observations\<close>

fun shard_sets :: "Shard \<Rightarrow> (string \<times> string) list \<Rightarrow> error + Shard" where
  "shard_sets s [] = Inr s"
| "shard_sets s ((k, v) # kvs) = bind_err (shard_set s k v) (\<lambda>s'. shard_sets s' kvs)"

fun Sets :: "ShardedCache \<Rightarrow> (string \<times> string) list \<Rightarrow> error + ShardedCache" where
  "Sets sc [] = Inr sc"
| "Sets sc ((k, v) # kvs) = bind_err (Set sc k v) (\<lambda>sc'. Sets sc' kvs)"

inductive reachable :: "Shard \<Rightarrow> bool" where
  r_new: "reachable (newShard c)"
| r_set: "reachable s \<Longrightarrow> shard_set s k v = Inr s' \<Longrightarrow> reachable s'"
| r_get: "reachable s \<Longrightarrow> reachable (snd (shard_get s k))"
| r_delete: "reachable s \<Longrightarrow> reachable (shard_delete s k)"
| r_evict: "reachable s \<Longrightarrow> shard_evict s = Inr s' \<Longrightarrow> reachable s'"

text \<open>
  The stores a store can evolve into by calls of \<^verbatim>\<open>Set\<close>, \<^verbatim>\<open>Get\<close> and \<^verbatim>\<open>Delete\<close>.
\<close>

inductive evolves :: "ShardedCache \<Rightarrow> ShardedCache \<Rightarrow> bool" where
  e_refl: "evolves sc sc"
| e_Set: "evolves sc sc1 \<Longrightarrow> Set sc1 k v = Inr sc2 \<Longrightarrow> evolves sc sc2"
| e_Get: "evolves sc sc1 \<Longrightarrow> evolves sc (snd (Get sc1 k))"
| e_Delete: "evolves sc sc1 \<Longrightarrow> Delete sc1 k = Inr sc2 \<Longrightarrow> evolves sc sc2"

text \<open>The keys of the elements of the LRU list, most recently used first.\<close>

definition lru_keys :: "Shard \<Rightarrow> string list" where
  "lru_keys s = map key (List.map_filter (store s) (lru s))"

text \<open>The value a key is bound to, read through the map without touching the order.\<close>

definition peek :: "Shard \<Rightarrow> string \<Rightarrow> string option" where
  "peek s k = (case data s k of None \<Rightarrow> None | Some el \<Rightarrow> map_option val (store s el))"

text \<open>
  The consistency of a shard: the list has no element twice, every element of the list
  was allocated, holds an entry and is the element the map gives for that entry's key,
  and every element the map gives is in the list and holds an entry with that key.
\<close>

definition shard_inv :: "Shard \<Rightarrow> bool" where
  "shard_inv s \<longleftrightarrow>
     distinct (lru s) \<and>
     (\<forall>e \<in> set (lru s). e < fresh s) \<and>
     (\<forall>e \<in> set (lru s). \<exists>ent. store s e = Some ent \<and> data s (key ent) = Some e) \<and>
     (\<forall>k e. data s k = Some e \<longrightarrow> e \<in> set (lru s) \<and> (\<exists>ent. store s e = Some ent \<and> key ent = k))"

text \<open>
  A store whose shard count is positive and below \<open>2 ^ 32\<close>, whose slice has as many
  shards as the count says, and whose shards are all in reachable states.
\<close>

definition store_ok :: "ShardedCache \<Rightarrow> bool" where
  "store_ok sc \<longleftrightarrow>
     1 \<le> shardCount sc \<and> shardCount sc < 2 ^ 32 \<and>
     length (shards sc) = nat (shardCount sc) \<and> list_all reachable (shards sc)"

text \<open>Test input: \<open>n\<close> pairwise distinct keys \<^verbatim>\<open>k\<close>, \<^verbatim>\<open>kk\<close>, \<^verbatim>\<open>kkk\<close>, ...\<close>

definition numbered_keys :: "nat \<Rightarrow> (string \<times> string) list" where
  "numbered_keys n = map (\<lambda>i. (replicate (Suc i) CHR ''k'', ''v'')) [0..<n]"

section \<open>The list operations\<close>

lemma set_MoveToFront: "set (MoveToFront e l) = set l"
proof -
  have "e \<in> set l \<Longrightarrow> insert e (set (remove1 e l)) = set l"
    using in_set_remove1 [of _ e l] notin_set_remove1 [of _ l e] by blast
  then show ?thesis by (simp add: MoveToFront_def)
qed

lemma distinct_MoveToFront: "distinct l \<Longrightarrow> distinct (MoveToFront e l)"
  by (auto simp: MoveToFront_def)

lemma MoveToFront_mem: "e \<in> set l \<Longrightarrow> distinct l \<Longrightarrow> MoveToFront e l = e # remove1 e l"
  by (cases l) (auto simp: MoveToFront_def)

lemma map_remove1_inj:
  "inj_on f (set xs) \<Longrightarrow> x \<in> set xs \<Longrightarrow> map f (remove1 x xs) = remove1 (f x) (map f xs)"
  by (induction xs) (auto simp: inj_on_def)

lemma remove1_map_Some: "remove1 (Some k) (map Some ks) = map Some (remove1 k ks)"
  by (induction ks) auto

section \<open>The shard's consistency is kept by every operation\<close>

lemma inv_new: "shard_inv (newShard c)"
  by (simp add: shard_inv_def newShard_def)

lemma inv_delete: "shard_inv s \<Longrightarrow> shard_inv (shard_delete s k)"
  unfolding shard_inv_def shard_delete_def Remove_def
  by (auto split: option.splits) (metis option.inject)+

text \<open>On a consistent, non-empty shard, eviction deletes the key of the last element.\<close>

lemma evict_as_delete:
  assumes "shard_inv s" "lru s \<noteq> []"
  shows "\<exists>ent. store s (last (lru s)) = Some ent \<and> data s (key ent) = Some (last (lru s)) \<and>
      shard_evict s = Inr (shard_delete s (key ent))"
proof -
  have "last (lru s) \<in> set (lru s)" using assms by simp
  then obtain ent where "store s (last (lru s)) = Some ent" "data s (key ent) = Some (last (lru s))"
    using assms(1) unfolding shard_inv_def by blast
  then show ?thesis using assms(2)
    by (simp add: shard_evict_def shard_delete_def Back_def)
qed

lemma evict_empty: "lru s = [] \<Longrightarrow> shard_evict s = Inr s"
  by (simp add: shard_evict_def Back_def)

lemma inv_evict: "shard_inv s \<Longrightarrow> shard_evict s = Inr s' \<Longrightarrow> shard_inv s'"
  by (cases "lru s = []") (use evict_as_delete evict_empty inv_delete in fastforce)+

lemma evict_total: "shard_inv s \<Longrightarrow> \<exists>s'. shard_evict s = Inr s'"
  by (cases "lru s = []") (use evict_as_delete evict_empty in fastforce)+

lemma evict_facts:
  assumes "shard_inv s" "lru s \<noteq> []" "shard_evict s = Inr s1"
  shows "Suc (length (lru s1)) = length (lru s)" "dom (data s1) \<subseteq> dom (data s)"
    "capacity s1 = capacity s" "fresh s1 = fresh s"
proof -
  from evict_as_delete [OF assms(1,2)] obtain ent :: entry where
    "data s (key ent) = Some (last (lru s))" "shard_evict s = Inr (shard_delete s (key ent))"
    by blast
  with assms(3) have e: "data s (key ent) = Some (last (lru s))" "s1 = shard_delete s (key ent)"
    by simp_all
  have "last (lru s) \<in> set (lru s)" using assms(2) by simp
  then show "Suc (length (lru s1)) = length (lru s)" using e assms(2)
    by (simp add: shard_delete_def Remove_def length_remove1)
  show "dom (data s1) \<subseteq> dom (data s)" "capacity s1 = capacity s" "fresh s1 = fresh s"
    using e by (auto simp: shard_delete_def split: if_splits)
qed

lemma inv_get: "shard_inv s \<Longrightarrow> shard_inv (snd (shard_get s k))"
  unfolding shard_inv_def shard_get_def
  by (auto simp: Let_def set_MoveToFront distinct_MoveToFront split: option.splits)

lemma inv_update:
  assumes "shard_inv s" "store s el = Some ent"
  shows "shard_inv (s\<lparr>store := (store s)(el \<mapsto> ent\<lparr>val := v\<rparr>), lru := MoveToFront el (lru s)\<rparr>)"
  using assms unfolding shard_inv_def
  by (auto simp: set_MoveToFront distinct_MoveToFront) (metis option.inject)

text \<open>What \<^verbatim>\<open>set\<close> does to a key that is present.\<close>

lemma set_present:
  assumes "shard_inv s" "data s k = Some el"
  shows "\<exists>ent. store s el = Some ent \<and> key ent = k \<and>
     shard_set s k v =
       Inr (s\<lparr>store := (store s)(el \<mapsto> ent\<lparr>val := v\<rparr>), lru := el # remove1 el (lru s)\<rparr>)"
proof -
  from assms obtain ent where "el \<in> set (lru s)" "store s el = Some ent" "key ent = k"
    unfolding shard_inv_def by blast
  moreover have "distinct (lru s)" using assms(1) by (simp add: shard_inv_def)
  ultimately show ?thesis using assms(2)
    by (simp add: shard_set_def MoveToFront_mem)
qed

text \<open>Linking a new element for an absent key.\<close>

lemma inv_insert:
  assumes "shard_inv s" "data s k = None"
    and s': "s' = s\<lparr>store := (store s)(fresh s \<mapsto> \<lparr>key = k, val = v\<rparr>),
                    lru := PushFront (fresh s) (lru s),
                    data := (data s)(k \<mapsto> fresh s),
                    fresh := Suc (fresh s)\<rparr>"
  shows "shard_inv s'"
proof -
  have d: "distinct (lru s)" and f: "\<forall>e \<in> set (lru s). e < fresh s"
    and l: "\<forall>e \<in> set (lru s). \<exists>ent. store s e = Some ent \<and> data s (key ent) = Some e"
    and m: "\<forall>k e. data s k = Some e \<longrightarrow>
              e \<in> set (lru s) \<and> (\<exists>ent. store s e = Some ent \<and> key ent = k)"
    using assms(1) unfolding shard_inv_def by blast+
  have nf: "fresh s \<notin> set (lru s)" using f by auto
  have "distinct (lru s')" using d nf by (simp add: s' PushFront_def)
  moreover have "\<forall>e \<in> set (lru s'). e < fresh s'"
    using f by (auto simp: s' PushFront_def less_Suc_eq)
  moreover have "\<exists>ent. store s' e = Some ent \<and> data s' (key ent) = Some e"
    if "e \<in> set (lru s')" for e
  proof (cases "e = fresh s")
    case True
    then show ?thesis by (simp add: s')
  next
    case False
    then have "e \<in> set (lru s)" using that by (simp add: s' PushFront_def)
    then obtain ent where "store s e = Some ent" "data s (key ent) = Some e" using l by blast
    moreover from this assms(2) have "key ent \<noteq> k" by auto
    ultimately show ?thesis using False by (simp add: s')
  qed
  moreover have "\<forall>k' e. data s' k' = Some e \<longrightarrow>
      e \<in> set (lru s') \<and> (\<exists>ent. store s' e = Some ent \<and> key ent = k')"
    using m nf by (auto simp: s' PushFront_def)
  ultimately show ?thesis unfolding shard_inv_def by blast
qed

text \<open>What \<^verbatim>\<open>set\<close> does to a key that is absent: evict when full, then insert.\<close>

lemma set_absent:
  assumes "shard_inv s" "data s k = None"
  shows "\<exists>s1. (if capacity s > 0 \<and> Len (lru s) \<ge> capacity s then shard_evict s else Inr s) = Inr s1
     \<and> shard_inv s1 \<and> data s1 k = None \<and> capacity s1 = capacity s
     \<and> shard_set s k v = Inr (s1\<lparr>store := (store s1)(fresh s1 \<mapsto> \<lparr>key = k, val = v\<rparr>),
                        lru := PushFront (fresh s1) (lru s1),
                        data := (data s1)(k \<mapsto> fresh s1),
                        fresh := Suc (fresh s1)\<rparr>)"
proof (cases "capacity s > 0 \<and> Len (lru s) \<ge> capacity s")
  case True
  obtain s1 where s1: "shard_evict s = Inr s1" using evict_total [OF assms(1)] by blast
  have "shard_inv s1" using inv_evict [OF assms(1) s1] .
  moreover have "data s1 k = None \<and> capacity s1 = capacity s"
    using s1 assms(2) by (auto simp: shard_evict_def split: option.splits)
  ultimately show ?thesis using True s1 assms(2)
    by (simp add: shard_set_def bind_err_def Let_def)
next
  case False
  then have "(if capacity s > 0 \<and> Len (lru s) \<ge> capacity s then shard_evict s else Inr s) = Inr s"
    by (rule if_not_P)
  then show ?thesis using assms
    by (simp add: shard_set_def bind_err_def Let_def del: split_paired_Ex)
qed

lemma inv_set:
  assumes "shard_inv s" "shard_set s k v = Inr s'"
  shows "shard_inv s'"
proof (cases "data s k")
  case None
  from set_absent [OF assms(1) None, of v] inv_insert assms(2) show ?thesis by auto
next
  case (Some el)
  then obtain ent where "store s el = Some ent" using assms(1) unfolding shard_inv_def by blast
  with Some assms show ?thesis by (auto simp: shard_set_def inv_update)
qed

lemma set_total: "shard_inv s \<Longrightarrow> \<exists>s'. shard_set s k v = Inr s'"
  by (cases "data s k") (use set_absent set_present in blast)+

lemma get_absent: "data s k = None \<Longrightarrow> shard_get s k = (Inl NotFound, s)"
  by (simp add: shard_get_def)

lemma get_present:
  assumes "shard_inv s" "data s k = Some el"
  shows "\<exists>v. fst (shard_get s k) = Inr v \<and> peek s k = Some v"
proof -
  from assms obtain ent where "store s el = Some ent" unfolding shard_inv_def by blast
  then show ?thesis using assms(2) by (simp add: shard_get_def peek_def)
qed

lemma get_fails_iff:
  assumes "shard_inv s"
  shows "(fst (shard_get s k) = Inl NotFound \<longleftrightarrow> data s k = None) \<and>
         (\<forall>e. fst (shard_get s k) = Inl e \<longrightarrow> e = NotFound)"
  using get_absent [of s k] get_present [OF assms, of k]
  by (cases "data s k") fastforce+

lemma reachable_inv: "reachable s \<Longrightarrow> shard_inv s"
  by (induction rule: reachable.induct) (auto intro: inv_new inv_set inv_get inv_delete inv_evict)

section \<open>The keys of the list and the keys of the map\<close>

lemma inv_key_inj:
  assumes "shard_inv s"
  shows "inj_on (\<lambda>e. map_option key (store s e)) (set (lru s))"
proof (rule inj_onI)
  fix x y
  assume "x \<in> set (lru s)" "y \<in> set (lru s)"
    "map_option key (store s x) = map_option key (store s y)"
  then show "x = y" using assms unfolding shard_inv_def
    by (metis option.inject option.simps(9))
qed

lemma inv_map_filter:
  assumes "shard_inv s"
  shows "map Some (lru_keys s) = map (\<lambda>e. map_option key (store s e)) (lru s)"
proof -
  have "\<forall>e \<in> set (lru s). store s e \<noteq> None" using assms unfolding shard_inv_def by fastforce
  then have "map Some (map key (List.map_filter (store s) xs)) =
      map (\<lambda>e. map_option key (store s e)) xs"
    if "set xs \<subseteq> set (lru s)" for xs
    using that by (induction xs) (auto simp: List.map_filter_simps split: option.splits)
  then show ?thesis by (simp add: lru_keys_def)
qed

lemma inv_keys_distinct:
  assumes "shard_inv s"
  shows "distinct (lru_keys s)"
proof -
  have "distinct (map (\<lambda>e. map_option key (store s e)) (lru s))"
    using inv_key_inj [OF assms] assms by (simp add: distinct_map shard_inv_def)
  then have "distinct (map Some (lru_keys s))" using inv_map_filter [OF assms] by simp
  then show ?thesis by (simp add: distinct_map)
qed

lemma inv_keys_length: "shard_inv s \<Longrightarrow> length (lru_keys s) = length (lru s)"
  using inv_map_filter [of s] by (metis length_map)

lemma inv_keys_set:
  assumes "shard_inv s"
  shows "set (lru_keys s) = dom (data s)"
proof -
  have "Some ` set (lru_keys s) = (\<lambda>e. map_option key (store s e)) ` set (lru s)"
    using inv_map_filter [OF assms] by (metis set_map)
  also have "\<dots> = Some ` dom (data s)"
    using assms unfolding shard_inv_def by (force simp: image_iff dom_def)
  finally show ?thesis by (simp add: inj_image_eq_iff)
qed

lemma inv_card: "shard_inv s \<Longrightarrow> card (dom (data s)) = length (lru s)"
  using inv_keys_set [of s] inv_keys_distinct [of s] inv_keys_length [of s]
  by (metis distinct_card)

lemma delete_lru_keys:
  assumes inv: "shard_inv s"
  shows "lru_keys (shard_delete s k) = remove1 k (lru_keys s)"
proof (cases "data s k")
  case None
  have "k \<notin> set (lru_keys s)" using inv_keys_set [OF inv] None by auto
  then show ?thesis using None by (simp add: shard_delete_def remove1_idem)
next
  case (Some el)
  have inv': "shard_inv (shard_delete s k)" using inv by (rule inv_delete)
  from inv Some obtain ent where mem: "el \<in> set (lru s)" and
    ent: "store s el = Some ent" "key ent = k" unfolding shard_inv_def by blast
  have "map Some (lru_keys (shard_delete s k)) =
      map (\<lambda>e. map_option key (store s e)) (remove1 el (lru s))"
    using inv_map_filter [OF inv'] Some mem by (simp add: shard_delete_def Remove_def)
  also have "\<dots> = remove1 (Some k) (map (\<lambda>e. map_option key (store s e)) (lru s))"
    using map_remove1_inj [OF inv_key_inj [OF inv] mem] ent by simp
  also have "\<dots> = map Some (remove1 k (lru_keys s))"
    using inv_map_filter [OF inv, symmetric] by (simp add: remove1_map_Some)
  finally show ?thesis by (rule map_injective) simp
qed

lemma delete_frame:
  "data (shard_delete s k) k = None \<and> store (shard_delete s k) = store s \<and>
   capacity (shard_delete s k) = capacity s \<and>
   (\<forall>k'. k' \<noteq> k \<longrightarrow> data (shard_delete s k) k' = data s k' \<and>
      peek (shard_delete s k) k' = peek s k')"
  by (simp add: shard_delete_def peek_def split: option.splits)

section \<open>Counting the entries over a sequence of sets\<close>

lemma set_absent_facts:
  assumes "shard_inv s" "data s k = None"
  shows "\<exists>s'. shard_set s k v = Inr s' \<and> shard_inv s' \<and> capacity s' = capacity s \<and>
     dom (data s') \<subseteq> insert k (dom (data s)) \<and>
     length (lru s') =
       (if capacity s > 0 \<and> int (length (lru s)) \<ge> capacity s
        then length (lru s) else Suc (length (lru s)))"
proof -
  from set_absent [OF assms, of v] obtain s1 where
    s1: "(if capacity s > 0 \<and> Len (lru s) \<ge> capacity s then shard_evict s else Inr s) = Inr s1"
      "shard_inv s1" "data s1 k = None" "capacity s1 = capacity s"
      "shard_set s k v = Inr (s1\<lparr>store := (store s1)(fresh s1 \<mapsto> \<lparr>key = k, val = v\<rparr>),
                        lru := PushFront (fresh s1) (lru s1),
                        data := (data s1)(k \<mapsto> fresh s1),
                        fresh := Suc (fresh s1)\<rparr>)" by blast
  have "dom (data s1) \<subseteq> dom (data s) \<and> length (lru s1) =
       (if capacity s > 0 \<and> int (length (lru s)) \<ge> capacity s
        then length (lru s) - 1 else length (lru s))"
  proof (cases "capacity s > 0 \<and> Len (lru s) \<ge> capacity s")
    case True
    then have ne: "lru s \<noteq> []" by (auto simp: Len_def)
    from True s1(1) have "shard_evict s = Inr s1" by simp
    from evict_facts(1,2) [OF assms(1) ne this] True show ?thesis by (auto simp: Len_def)
  next
    case False
    then have "s1 = s" using s1(1) by (auto split: if_splits)
    then show ?thesis using False by (auto simp: Len_def)
  qed
  moreover have "capacity s > 0 \<and> int (length (lru s)) \<ge> capacity s \<Longrightarrow> length (lru s) > 0"
    by auto
  ultimately show ?thesis using s1 inv_insert [OF s1(2,3) refl, of v]
    by (auto simp: PushFront_def)
qed

lemma sets_count:
  assumes "shard_inv s" "distinct (map fst kvs)" "fst ` set kvs \<inter> dom (data s) = {}"
    "capacity s > 0 \<longrightarrow> int (length (lru s)) \<le> capacity s"
  shows "\<exists>s'. shard_sets s kvs = Inr s' \<and> shard_inv s' \<and> capacity s' = capacity s \<and>
     int (length (lru s')) =
       (if capacity s > 0 then min (int (length (lru s) + length kvs)) (capacity s)
        else int (length (lru s) + length kvs))"
  using assms
proof (induction kvs arbitrary: s)
  case Nil
  then show ?case by auto
next
  case (Cons kv kvs)
  obtain k v where kv: "kv = (k, v)" by (cases kv)
  have absent: "data s k = None" using Cons.prems(3) kv by auto
  from set_absent_facts [OF Cons.prems(1) absent, of v] obtain s1 where
    s1: "shard_set s k v = Inr s1" "shard_inv s1" "capacity s1 = capacity s"
      "dom (data s1) \<subseteq> insert k (dom (data s))"
      "length (lru s1) = (if capacity s > 0 \<and> int (length (lru s)) \<ge> capacity s
        then length (lru s) else Suc (length (lru s)))" by blast
  have d: "distinct (map fst kvs)" and nk: "k \<notin> fst ` set kvs" using Cons.prems(2) kv by auto
  have disj: "fst ` set kvs \<inter> dom (data s1) = {}" using s1(4) nk Cons.prems(3) by auto
  have bound: "capacity s1 > 0 \<longrightarrow> int (length (lru s1)) \<le> capacity s1"
    using s1(3,5) Cons.prems(4) by auto
  from Cons.IH [OF s1(2) d disj bound] obtain s' where
    s': "shard_sets s1 kvs = Inr s'" "shard_inv s'" "capacity s' = capacity s1"
      "int (length (lru s')) =
       (if capacity s1 > 0 then min (int (length (lru s1) + length kvs)) (capacity s1)
        else int (length (lru s1) + length kvs))" by blast
  have "shard_sets s (kv # kvs) = Inr s'" using kv s1(1) s'(1) by (simp add: bind_err_def)
  moreover have "int (length (lru s')) =
       (if capacity s > 0 then min (int (length (lru s) + length (kv # kvs))) (capacity s)
        else int (length (lru s) + length (kv # kvs)))"
    using s'(4) s1(3,5) Cons.prems(4) by (auto simp: min_def)
  ultimately show ?case using s'(2,3) s1(3) by auto
qed

lemma sets_new:
  assumes "distinct (map fst kvs)"
  shows "\<exists>s. shard_sets (newShard C) kvs = Inr s \<and> shard_inv s \<and>
     int (length (lru s)) = (if C > 0 then min (int (length kvs)) C else int (length kvs))"
proof -
  have "fst ` set kvs \<inter> dom (data (newShard C)) = {}"
    "capacity (newShard C) > 0 \<longrightarrow> int (length (lru (newShard C))) \<le> capacity (newShard C)"
    by (simp_all add: newShard_def)
  from sets_count [OF inv_new assms this] show ?thesis
    by (auto simp: newShard_def)
qed

lemma set_first: "shard_set (newShard c) k v =
   Inr \<lparr>data = [k \<mapsto> 0], lru = [0], store = [0 \<mapsto> \<lparr>key = k, val = v\<rparr>],
        fresh = Suc 0, capacity = c\<rparr>"
  by (simp add: shard_set_def newShard_def bind_err_def Len_def PushFront_def
      shard_evict_def Back_def)

lemma numbered_keys_distinct: "distinct (map fst (numbered_keys n))"
proof -
  have "inj (\<lambda>i. replicate (Suc i) CHR ''k'')"
    by (rule injI) (metis length_replicate nat.inject)
  then show ?thesis
    by (simp add: numbered_keys_def distinct_map comp_def inj_on_def)
qed

lemma numbered_keys_length: "length (numbered_keys n) = n"
  by (simp add: numbered_keys_def)

section \<open>The store: shard selection\<close>

lemma delete_twice: "shard_delete (shard_delete s k) k = shard_delete s k"
  by (simp add: shard_delete_def split: option.splits)

lemma getShard_cong:
  "shardCount a = shardCount b \<Longrightarrow> length (shards a) = length (shards b) \<Longrightarrow>
   getShard a k = getShard b k"
  by (simp add: getShard_def Let_def)

lemma getShard_bound: "getShard sc k = Inr i \<Longrightarrow> i < length (shards sc)"
  by (auto simp: getShard_def Let_def split: if_splits)

lemma Delete_twice:
  assumes "Delete sc k = Inr sc1"
  shows "Delete sc1 k = Inr sc1"
proof -
  from assms obtain i where i: "getShard sc k = Inr i"
    and sc1: "sc1 = sc\<lparr>shards := (shards sc)[i := shard_delete (shards sc ! i) k]\<rparr>"
    by (auto simp: Delete_def bind_err_def split: sum.splits)
  have "getShard sc1 k = Inr i" using i getShard_cong [of sc1 sc k] by (simp add: sc1)
  moreover have "i < length (shards sc)" using i by (rule getShard_bound)
  ultimately show ?thesis
    by (simp add: Delete_def bind_err_def sc1 delete_twice)
qed

lemma Set_shape:
  "Set sc k v = Inr sc' \<Longrightarrow>
   shardCount sc' = shardCount sc \<and> length (shards sc') = length (shards sc)"
  by (auto simp: Set_def bind_err_def split: sum.splits)

lemma Get_shape:
  "shardCount (snd (Get sc k)) = shardCount sc \<and>
   length (shards (snd (Get sc k))) = length (shards sc)"
  by (auto simp: Get_def split: sum.splits prod.splits)

lemma Delete_shape:
  "Delete sc k = Inr sc' \<Longrightarrow>
   shardCount sc' = shardCount sc \<and> length (shards sc') = length (shards sc)"
  by (auto simp: Delete_def bind_err_def split: sum.splits)

lemma evolves_shape:
  "evolves sc sc' \<Longrightarrow>
   shardCount sc' = shardCount sc \<and> length (shards sc') = length (shards sc)"
  by (induction rule: evolves.induct) (auto dest: Set_shape Delete_shape simp: Get_shape)

lemma New_shape:
  "NewShardedCache opts = Inr sc \<Longrightarrow>
   0 \<le> shardCount sc \<and> shardCount sc \<le> 2 ^ 45 \<and> length (shards sc) = nat (shardCount sc)"
  by (auto simp: NewShardedCache_def Let_def split: if_splits)

lemma uint32_le: "0 \<le> n \<Longrightarrow> unat (word_of_int n :: 32 word) \<le> nat n"
  by (simp add: unat_eq_nat_uint uint_word_of_int nat_mono zmod_le_nonneg_dividend)

lemma uint32_nonzero: "1 \<le> n \<Longrightarrow> n < 2 ^ 32 \<Longrightarrow> (word_of_int n :: 32 word) \<noteq> 0"
  by (simp add: word_of_int_eq_0_iff zdvd_not_zless)

text \<open>
  When the slice has as many shards as the count says, the index is in range whenever the
  truncated count is not zero.
\<close>

lemma getShard_in_range:
  assumes "0 \<le> shardCount sc" "length (shards sc) = nat (shardCount sc)"
  shows "getShard sc k =
     (if (word_of_int (shardCount sc) :: 32 word) = 0 then Inl DivideByZeroPanic
      else Inr (unat (fnv32a k mod word_of_int (shardCount sc))))"
proof -
  have "unat (fnv32a k mod word_of_int (shardCount sc)) < length (shards sc)"
    if "(word_of_int (shardCount sc) :: 32 word) \<noteq> 0"
  proof -
    have "unat (fnv32a k mod word_of_int (shardCount sc))
        < unat (word_of_int (shardCount sc) :: 32 word)"
      using that by (simp add: unat_mod unat_gt_0)
    then show ?thesis using uint32_le [OF assms(1)] assms(2) by simp
  qed
  then show ?thesis by (auto simp: getShard_def Let_def)
qed

lemma foldl_opts_positive:
  assumes "\<forall>opt \<in> set opts. opt \<in> range WithShardCount \<union> range WithShardCapacity"
    "1 \<le> shardCount z" "1 \<le> shardCapacity z"
  shows "1 \<le> shardCount (foldl (\<lambda>sc opt. opt sc) z opts) \<and>
         1 \<le> shardCapacity (foldl (\<lambda>sc opt. opt sc) z opts)"
  using assms
proof (induction opts arbitrary: z)
  case Nil
  then show ?case by simp
next
  case (Cons opt opts)
  have "1 \<le> shardCount (opt z) \<and> 1 \<le> shardCapacity (opt z)"
    using Cons.prems by (auto simp: WithShardCount_def WithShardCapacity_def)
  then show ?case using Cons.IH [of "opt z"] Cons.prems(1) by simp
qed

lemma foldl_opts_bounded:
  assumes "\<forall>opt \<in> set opts. opt \<in> WithShardCount ` {..2 ^ 45} \<union> range WithShardCapacity"
    "shardCount z \<le> 2 ^ 45"
  shows "shardCount (foldl (\<lambda>sc opt. opt sc) z opts) \<le> 2 ^ 45"
  using assms
proof (induction opts arbitrary: z)
  case Nil
  then show ?case by simp
next
  case (Cons opt opts)
  have "shardCount (opt z) \<le> 2 ^ 45"
    using Cons.prems by (auto simp: WithShardCount_def WithShardCapacity_def)
  then show ?case using Cons.IH [of "opt z"] Cons.prems(1) by simp
qed

lemma getShard_single:
  "shardCount sc = 1 \<Longrightarrow> length (shards sc) = 1 \<Longrightarrow> getShard sc k = Inr 0"
  by (simp add: getShard_def)

text \<open>A store of one shard sends every key to that shard.\<close>

lemma Sets_single:
  assumes "shardCount sc = 1" "shards sc = [s]"
  shows "Sets sc kvs = bind_err (shard_sets s kvs) (\<lambda>s'. Inr (sc\<lparr>shards := [s']\<rparr>))"
  using assms
proof (induction kvs arbitrary: sc s)
  case Nil
  then show ?case by (simp add: bind_err_def)
next
  case (Cons kv kvs)
  obtain k v where kv: "kv = (k, v)" by (cases kv)
  have g: "getShard sc k = Inr 0" using Cons.prems by (simp add: getShard_single)
  show ?case
  proof (cases "shard_set s k v")
    case (Inl e)
    then show ?thesis using g Cons.prems kv by (simp add: Set_def bind_err_def)
  next
    case (Inr s1)
    then have "Set sc k v = Inr (sc\<lparr>shards := [s1]\<rparr>)"
      using g Cons.prems by (simp add: Set_def bind_err_def)
    moreover have "Sets (sc\<lparr>shards := [s1]\<rparr>) kvs =
        bind_err (shard_sets s1 kvs) (\<lambda>s'. Inr (sc\<lparr>shards := [s1]\<rparr>\<lparr>shards := [s']\<rparr>))"
      using Cons.prems by (intro Cons.IH) simp_all
    ultimately show ?thesis using Inr kv by (simp add: bind_err_def)
  qed
qed

section \<open>The store: every operation finds a consistent shard\<close>

lemma store_ok_getShard:
  assumes "store_ok sc"
  shows "\<exists>i. getShard sc k = Inr i \<and> i < length (shards sc) \<and> reachable (shards sc ! i)"
proof -
  have shape: "0 \<le> shardCount sc" "length (shards sc) = nat (shardCount sc)"
    and nz: "(word_of_int (shardCount sc) :: 32 word) \<noteq> 0"
    using assms uint32_nonzero [of "shardCount sc"] by (simp_all add: store_ok_def)
  have "getShard sc k = Inr (unat (fnv32a k mod word_of_int (shardCount sc)))"
    using getShard_in_range [OF shape] nz by simp
  then obtain i where i: "getShard sc k = Inr i" "i < length (shards sc)"
    using getShard_bound by blast
  then have "reachable (shards sc ! i)" using assms by (simp add: store_ok_def list_all_length)
  then show ?thesis using i by blast
qed

lemma store_ok_update:
  "store_ok sc \<Longrightarrow> reachable s \<Longrightarrow> store_ok (sc\<lparr>shards := (shards sc)[i := s]\<rparr>)"
  using set_update_subset_insert [of "shards sc" i s]
  by (auto simp: store_ok_def list_all_iff)

lemma store_ok_New:
  assumes "\<forall>opt \<in> set opts. opt \<in> range WithShardCount \<union> range WithShardCapacity"
    "NewShardedCache opts = Inr sc" "shardCount sc < 2 ^ 32"
  shows "store_ok sc"
proof -
  define z where
    "z = foldl (\<lambda>sc opt. opt sc) \<lparr>shards = [], shardCount = 16, shardCapacity = 100\<rparr> opts"
  have pos: "1 \<le> shardCount z"
    using foldl_opts_positive [OF assms(1),
        of "\<lparr>shards = [], shardCount = 16, shardCapacity = 100\<rparr>"]
    by (simp_all add: z_def)
  have "sc = z\<lparr>shards := replicate (nat (shardCount z)) (newShard (shardCapacity z))\<rparr>"
    using assms(2) pos
    by (simp add: NewShardedCache_def Let_def z_def [symmetric] split: if_splits)
  then show ?thesis using pos assms(3)
    by (simp add: store_ok_def list_all_length reachable.r_new)
qed

lemma store_ok_evolves: "evolves sc sc' \<Longrightarrow> store_ok sc \<Longrightarrow> store_ok sc'"
proof (induction rule: evolves.induct)
  case (e_refl sc)
  then show ?case .
next
  case (e_Set sc sc1 k v sc2)
  then have ok: "store_ok sc1" by simp
  from store_ok_getShard [OF ok, of k] obtain i where
    i: "getShard sc1 k = Inr i" "reachable (shards sc1 ! i)" by blast
  with e_Set.hyps(2) obtain s' where "shard_set (shards sc1 ! i) k v = Inr s'"
    "sc2 = sc1\<lparr>shards := (shards sc1)[i := s']\<rparr>"
    by (auto simp: Set_def bind_err_def split: sum.splits)
  then show ?case using store_ok_update [OF ok] reachable.r_set [OF i(2)] by blast
next
  case (e_Get sc sc1 k)
  then have ok: "store_ok sc1" by simp
  from store_ok_getShard [OF ok, of k] obtain i where
    i: "getShard sc1 k = Inr i" "reachable (shards sc1 ! i)" by blast
  then have "snd (Get sc1 k) =
      sc1\<lparr>shards := (shards sc1)[i := snd (shard_get (shards sc1 ! i) k)]\<rparr>"
    by (simp add: Get_def split: prod.splits)
  then show ?case using store_ok_update [OF ok reachable.r_get [OF i(2)]] by simp
next
  case (e_Delete sc sc1 k sc2)
  then have ok: "store_ok sc1" by simp
  from store_ok_getShard [OF ok, of k] obtain i where
    i: "getShard sc1 k = Inr i" "reachable (shards sc1 ! i)" by blast
  with e_Delete.hyps(2) have
    "sc2 = sc1\<lparr>shards := (shards sc1)[i := shard_delete (shards sc1 ! i) k]\<rparr>"
    by (auto simp: Delete_def bind_err_def)
  then show ?case using store_ok_update [OF ok reachable.r_delete [OF i(2)]] by simp
qed

section \<open>The claims\<close>

text \<open>
  C1 (capacity invariant). On a shard created with capacity \<open>C > 0\<close>, after any sequence
  of \<^verbatim>\<open>set\<close> calls with pairwise distinct keys every call has succeeded and the shard
  holds exactly \<open>min n C\<close> entries, in its list and in its map alike; after every prefix of
  the sequence it holds at most \<open>C\<close>.
\<close>

theorem capacity_invariant:
  assumes "0 < C" "distinct (map fst kvs)"
  shows "(\<exists>s. shard_sets (newShard C) kvs = Inr s \<and>
            int (length (lru s)) = min (int (length kvs)) C \<and>
            card (dom (data s)) = length (lru s)) \<and>
         (\<forall>m \<le> length kvs. \<exists>s. shard_sets (newShard C) (take m kvs) = Inr s \<and>
            int (length (lru s)) \<le> C \<and> card (dom (data s)) = length (lru s))"
proof -
  have *: "\<exists>s. shard_sets (newShard C) xs = Inr s \<and>
            int (length (lru s)) = min (int (length xs)) C \<and>
            card (dom (data s)) = length (lru s)" if "distinct (map fst xs)" for xs
    using sets_new [OF that, of C] assms(1) inv_card by fastforce
  have "\<exists>s. shard_sets (newShard C) (take m kvs) = Inr s \<and>
            int (length (lru s)) \<le> C \<and> card (dom (data s)) = length (lru s)" for m
    using * [of "take m kvs"] assms(2) by (fastforce simp: take_map [symmetric])
  then show ?thesis using * [OF assms(2)] by blast
qed

theorem capacity_invariant_witness:
  "0 < (2::int) \<and> distinct (map fst [(''a'', ''1''), (''b'', ''2''), (''c'', ''3'')]) \<and>
   (\<exists>s. shard_sets (newShard 2) [(''a'', ''1''), (''b'', ''2''), (''c'', ''3'')] = Inr s \<and>
        int (length (lru s)) = 2 \<and> card (dom (data s)) = length (lru s))"
  using capacity_invariant [of 2 "[(''a'', ''1''), (''b'', ''2''), (''c'', ''3'')]"]
  by simp

text \<open>
  C2 (LRU order). On a shard of capacity 2, after \<^verbatim>\<open>set(a,1)\<close>, \<^verbatim>\<open>set(b,2)\<close>,
  \<^verbatim>\<open>get(a)\<close> (which returns 1) and \<^verbatim>\<open>set(c,3)\<close>, the keys present are exactly
  \<^verbatim>\<open>a\<close> and \<^verbatim>\<open>c\<close>, with \<^verbatim>\<open>c\<close> the most recently used; then \<^verbatim>\<open>get(a)\<close> returns 1,
  \<^verbatim>\<open>get(c)\<close> returns 3 and \<^verbatim>\<open>get(b)\<close> fails with \<open>NotFound\<close>. The same run through a
  store of one shard of capacity 2, in the order of the repository's eviction test, gives
  the same answers.
\<close>

theorem lru_order:
  "bind_err (shard_set (newShard 2) ''a'' ''1'') (\<lambda>s1.
   bind_err (shard_set s1 ''b'' ''2'') (\<lambda>s2.
   case shard_get s2 ''a'' of (r1, s3) \<Rightarrow>
   bind_err (shard_set s3 ''c'' ''3'') (\<lambda>s4.
   case shard_get s4 ''a'' of (r2, s5) \<Rightarrow>
   case shard_get s5 ''c'' of (r3, s6) \<Rightarrow>
   case shard_get s6 ''b'' of (r4, s7) \<Rightarrow>
     Inr (r1, dom (data s4), lru_keys s4, r2, r3, r4))))
   = Inr (Inr ''1'', {''a'', ''c''}, [''c'', ''a''], Inr ''1'', Inr ''3'', Inl NotFound) \<and>
   bind_err (NewShardedCache [WithShardCount 1, WithShardCapacity 2]) (\<lambda>c0.
   bind_err (Set c0 ''a'' ''1'') (\<lambda>c1.
   bind_err (Set c1 ''b'' ''2'') (\<lambda>c2.
   case Get c2 ''a'' of (r1, c3) \<Rightarrow>
   bind_err (Set c3 ''c'' ''3'') (\<lambda>c4.
   case Get c4 ''b'' of (r2, c5) \<Rightarrow>
   case Get c5 ''a'' of (r3, c6) \<Rightarrow>
   case Get c6 ''c'' of (r4, c7) \<Rightarrow>
     Inr (r1, r2, r3, r4)))))
   = Inr (Inr ''1'', Inl NotFound, Inr ''1'', Inr ''3'')"
  by (simp add: bind_err_def NewShardedCache_def WithShardCount_def WithShardCapacity_def
      Set_def Get_def getShard_def
      shard_set_def shard_get_def shard_evict_def newShard_def
      MoveToFront_def Remove_def PushFront_def Back_def Len_def lru_keys_def
      List.map_filter_simps insert_commute)

text \<open>
  C3 (update in place never evicts). In every reachable shard state in which the key is
  present, \<^verbatim>\<open>set\<close> succeeds, binds the key to the new value, moves its element to the
  front and leaves the other elements in their order, keeps the number of entries and the
  map's binding of every key, and changes no other key's value. Nothing is assumed about
  the capacity.
\<close>

theorem update_in_place:
  assumes "reachable s" "data s k = Some el"
  shows "\<exists>s'. shard_set s k v = Inr s' \<and>
           peek s' k = Some v \<and>
           lru s' = el # remove1 el (lru s) \<and>
           lru_keys s' = k # remove1 k (lru_keys s) \<and>
           length (lru s') = length (lru s) \<and>
           data s' = data s \<and>
           (\<forall>k'. k' \<noteq> k \<longrightarrow> peek s' k' = peek s k') \<and>
           capacity s' = capacity s"
proof -
  have inv: "shard_inv s" using assms(1) by (rule reachable_inv)
  from set_present [OF inv assms(2), of v] obtain ent where
    ent: "store s el = Some ent" "key ent = k" and
    set: "shard_set s k v =
      Inr (s\<lparr>store := (store s)(el \<mapsto> ent\<lparr>val := v\<rparr>), lru := el # remove1 el (lru s)\<rparr>)"
    by blast
  define s' where
    "s' = s\<lparr>store := (store s)(el \<mapsto> ent\<lparr>val := v\<rparr>), lru := el # remove1 el (lru s)\<rparr>"
  have inv': "shard_inv s'" using inv_set [OF inv] set s'_def by simp
  have mem: "el \<in> set (lru s)" using inv assms(2) unfolding shard_inv_def by blast
  have keys_same: "map_option key (store s' e) = map_option key (store s e)" for e
    using ent by (simp add: s'_def)
  have lru': "lru s' = el # remove1 el (lru s)" by (simp add: s'_def)
  have "map Some (lru_keys s') =
      map (\<lambda>e. map_option key (store s e)) (el # remove1 el (lru s))"
    using inv_map_filter [OF inv'] by (simp only: keys_same lru')
  also have "\<dots> = Some k # remove1 (Some k) (map (\<lambda>e. map_option key (store s e)) (lru s))"
    using map_remove1_inj [OF inv_key_inj [OF inv] mem] ent by simp
  also have "\<dots> = map Some (k # remove1 k (lru_keys s))"
    using inv_map_filter [OF inv, symmetric] by (simp add: remove1_map_Some)
  finally have keys: "lru_keys s' = k # remove1 k (lru_keys s)"
    by (rule map_injective) simp
  have other: "peek s' k' = peek s k'" if "k' \<noteq> k" for k'
  proof (cases "data s k'")
    case None
    then show ?thesis by (simp add: peek_def s'_def)
  next
    case (Some e')
    then have "e' \<noteq> el" using inv ent that unfolding shard_inv_def by (metis option.inject)
    then show ?thesis using Some by (simp add: peek_def s'_def)
  qed
  have "length (lru s') = length (lru s)"
    using mem by (simp add: s'_def length_remove1) (metis Suc_pred length_pos_if_in_set)
  moreover have "peek s' k = Some v" using assms(2) by (simp add: peek_def s'_def)
  ultimately show ?thesis using set keys other by (auto simp: s'_def)
qed

theorem update_in_place_witness:
  "\<exists>s s'. shard_set (newShard 1) ''a'' ''1'' = Inr s \<and> reachable s \<and> data s ''a'' = Some 0 \<and>
      int (length (lru s)) = capacity s \<and>
      shard_set s ''a'' ''9'' = Inr s' \<and> peek s' ''a'' = Some ''9'' \<and>
      length (lru s') = length (lru s) \<and> data s' = data s"
proof -
  define s where "s = \<lparr>data = [''a'' \<mapsto> 0::nat], lru = [0::nat],
     store = [0 \<mapsto> \<lparr>key = ''a'', val = ''1''\<rparr>], fresh = Suc 0, capacity = 1::int\<rparr>"
  have 1: "shard_set (newShard 1) ''a'' ''1'' = Inr s" by (simp add: set_first s_def)
  have 2: "reachable s" using reachable.r_set [OF reachable.r_new 1] .
  have 3: "data s ''a'' = Some 0" by (simp add: s_def)
  have 4: "int (length (lru s)) = capacity s" by (simp add: s_def)
  from update_in_place [OF 2 3, of "''9''"] 1 2 3 4 show ?thesis by blast
qed

text \<open>
  C4 (routing determinism). Two stores constructed with the same shard count, each after
  any calls of \<^verbatim>\<open>Set\<close>, \<^verbatim>\<open>Get\<close> and \<^verbatim>\<open>Delete\<close>, select the same shard index for
  every key; with the two stores equal this is the same store at two moments. The result
  is given by the key and the count alone: the FNV-1a hash of the key modulo the low 32
  bits of the count.
\<close>

theorem routing_deterministic:
  assumes "NewShardedCache opts1 = Inr a" "NewShardedCache opts2 = Inr b"
    "shardCount a = shardCount b" "evolves a a'" "evolves b b'"
  shows "getShard a' k = getShard b' k \<and>
         getShard a' k =
           (if (word_of_int (shardCount a) :: 32 word) = 0 then Inl DivideByZeroPanic
            else Inr (unat (fnv32a k mod word_of_int (shardCount a))))"
proof -
  have count: "shardCount a' = shardCount a" "shardCount b' = shardCount b"
    using evolves_shape [OF assms(4)] evolves_shape [OF assms(5)] by simp_all
  have len: "length (shards a') = nat (shardCount a')" "length (shards b') = nat (shardCount b')"
    using New_shape [OF assms(1)] New_shape [OF assms(2)]
      evolves_shape [OF assms(4)] evolves_shape [OF assms(5)] by simp_all
  have "getShard a' k = getShard b' k"
    using count len assms(3) by (intro getShard_cong) simp_all
  moreover have "0 \<le> shardCount a'" using New_shape [OF assms(1)] count by simp
  from getShard_in_range [OF this len(1), of k] have "getShard a' k =
           (if (word_of_int (shardCount a) :: 32 word) = 0 then Inl DivideByZeroPanic
            else Inr (unat (fnv32a k mod word_of_int (shardCount a))))"
    by (simp add: count)
  ultimately show ?thesis by simp
qed

theorem routing_deterministic_witness:
  "\<exists>a b. NewShardedCache [WithShardCount 4] = Inr a \<and>
      NewShardedCache [WithShardCount 4, WithShardCapacity 2] = Inr b \<and>
      shardCount a = shardCount b \<and> evolves a a \<and> evolves b (snd (Get b ''foo'')) \<and>
      getShard a ''foo'' = getShard (snd (Get b ''foo'')) ''foo''"
proof -
  obtain a where 1: "NewShardedCache [WithShardCount 4] = Inr a" and a: "shardCount a = 4"
    by (simp add: NewShardedCache_def WithShardCount_def)
  obtain b where 2: "NewShardedCache [WithShardCount 4, WithShardCapacity 2] = Inr b"
    and b: "shardCount b = 4"
    by (simp add: NewShardedCache_def WithShardCount_def WithShardCapacity_def)
  have 3: "shardCount a = shardCount b" using a b by simp
  have 4: "evolves a a" by (rule evolves.e_refl)
  have 5: "evolves b (snd (Get b ''foo''))" by (rule evolves.e_Get [OF evolves.e_refl])
  from routing_deterministic [OF 1 2 3 4 5, of "''foo''"] 1 2 3 4 5 show ?thesis by blast
qed

text \<open>
  C5 (the only error is NotFound), at the input where the code breaks it: on the store
  constructed with \<^verbatim>\<open>WithShardCount(4294967296)\<close>, \<^verbatim>\<open>Set\<close>, \<^verbatim>\<open>Get\<close> and \<^verbatim>\<open>Delete\<close>
  all panic with an integer division by zero in the selection of the shard: \<^verbatim>\<open>Set\<close> and
  \<^verbatim>\<open>Delete\<close> fail, and \<^verbatim>\<open>Get\<close> fails with something other than \<open>NotFound\<close>.
\<close>

theorem store_operations_panic_at_2_32:
  "bind_err (NewShardedCache [WithShardCount 4294967296]) (\<lambda>sc. Set sc ''a'' ''1'')
     = Inl DivideByZeroPanic \<and>
   bind_err (NewShardedCache [WithShardCount 4294967296]) (\<lambda>sc. Inr (fst (Get sc ''a'')))
     = Inr (Inl DivideByZeroPanic) \<and>
   bind_err (NewShardedCache [WithShardCount 4294967296]) (\<lambda>sc. Delete sc ''a'')
     = Inl DivideByZeroPanic"
  by (simp add: NewShardedCache_def WithShardCount_def getShard_def bind_err_def
      Set_def Get_def Delete_def)

text \<open>
  X3. On the shard, the only error is NotFound. In every reachable shard state, \<^verbatim>\<open>get\<close> fails with
  \<open>NotFound\<close> exactly when the key is absent, then leaves the state as it was, and fails
  in no other way; on a present key it returns the value the key is bound to.
  \<^verbatim>\<open>set\<close> and the internal \<^verbatim>\<open>evict\<close> succeed: none of their type assertions panics.
  \<^verbatim>\<open>delete\<close> has no failing statement in the source, so its model returns a shard, and
  that shard is again a reachable state.
\<close>

theorem notfound_only_error:
  assumes "reachable s"
  shows "(fst (shard_get s k) = Inl NotFound \<longleftrightarrow> data s k = None) \<and>
         (fst (shard_get s k) = Inl NotFound \<longrightarrow> snd (shard_get s k) = s) \<and>
         (\<forall>e. fst (shard_get s k) = Inl e \<longrightarrow> e = NotFound) \<and>
         (\<forall>el. data s k = Some el \<longrightarrow>
            (\<exists>v. fst (shard_get s k) = Inr v \<and> peek s k = Some v)) \<and>
         (\<exists>s'. shard_set s k v = Inr s') \<and>
         (\<exists>s'. shard_evict s = Inr s') \<and>
         reachable (shard_delete s k)"
proof -
  have inv: "shard_inv s" using assms by (rule reachable_inv)
  show ?thesis
    using get_absent [of s k] get_present [OF inv, of k] get_fails_iff [OF inv, of k]
      set_total [OF inv] evict_total [OF inv] reachable.r_delete [OF assms]
    by auto
qed

theorem notfound_only_error_witness:
  "\<exists>s. shard_set (newShard 2) ''a'' ''1'' = Inr s \<and> reachable s \<and>
      fst (shard_get s ''x'') = Inl NotFound \<and> snd (shard_get s ''x'') = s \<and>
      fst (shard_get s ''a'') = Inr ''1'' \<and>
      (\<exists>s'. shard_set s ''x'' ''2'' = Inr s')"
proof -
  define s where "s = \<lparr>data = [''a'' \<mapsto> 0::nat], lru = [0::nat],
     store = [0 \<mapsto> \<lparr>key = ''a'', val = ''1''\<rparr>], fresh = Suc 0, capacity = 2::int\<rparr>"
  have 1: "shard_set (newShard 2) ''a'' ''1'' = Inr s" by (simp add: set_first s_def)
  have 2: "reachable s" using reachable.r_set [OF reachable.r_new 1] .
  have 3: "data s ''x'' = None" "data s ''a'' = Some 0" "peek s ''a'' = Some ''1''"
    by (simp_all add: s_def peek_def)
  from notfound_only_error [OF 2, of "''x''" "''2''"] 3(1)
  have "fst (shard_get s ''x'') = Inl NotFound" "snd (shard_get s ''x'') = s"
    "\<exists>s'. shard_set s ''x'' ''2'' = Inr s'" by simp_all
  moreover from notfound_only_error [OF 2, of "''a''" "''2''"] 3(2,3)
  have "fst (shard_get s ''a'') = Inr ''1''" by auto
  ultimately show ?thesis using 1 2 by blast
qed

text \<open>
  C6 (map and list consistent). In every shard state reachable from a new shard by
  \<^verbatim>\<open>set\<close>, \<^verbatim>\<open>get\<close>, \<^verbatim>\<open>delete\<close> and \<^verbatim>\<open>evict\<close>, the keys of the list's elements are
  exactly the keys of the map, no key and no element occurs twice in the list, every
  element of the list holds an entry, the map sends a key to an element of the list that
  holds that key, and every element of the list is the one the map gives for its key.
\<close>

theorem lookup_order_consistent:
  assumes "reachable s"
  shows "set (lru_keys s) = dom (data s) \<and> distinct (lru_keys s) \<and>
         length (lru_keys s) = length (lru s) \<and> distinct (lru s) \<and>
         (\<forall>k el. data s k = Some el \<longrightarrow>
            el \<in> set (lru s) \<and> map_option key (store s el) = Some k) \<and>
         (\<forall>el \<in> set (lru s). \<exists>ent. store s el = Some ent \<and> data s (key ent) = Some el)"
proof -
  have inv: "shard_inv s" using assms by (rule reachable_inv)
  then have "distinct (lru s)"
    "\<forall>k el. data s k = Some el \<longrightarrow> el \<in> set (lru s) \<and> map_option key (store s el) = Some k"
    "\<forall>el \<in> set (lru s). \<exists>ent. store s el = Some ent \<and> data s (key ent) = Some el"
    unfolding shard_inv_def by fastforce+
  then show ?thesis
    using inv_keys_set [OF inv] inv_keys_distinct [OF inv] inv_keys_length [OF inv]
    by blast
qed

theorem lookup_order_consistent_witness:
  "\<exists>s. shard_set (newShard 2) ''a'' ''1'' = Inr s \<and> reachable s \<and>
      set (lru_keys s) = dom (data s) \<and> distinct (lru_keys s) \<and>
      length (lru_keys s) = length (lru s)"
proof -
  obtain s where 1: "shard_set (newShard 2) ''a'' ''1'' = Inr s" using set_first by blast
  have 2: "reachable s" using reachable.r_set [OF reachable.r_new 1] .
  from lookup_order_consistent [OF 2] 1 2 show ?thesis by blast
qed

text \<open>
  C7 as the spec states it: a store constructed with a per-shard capacity option of 0 has
  unbounded shards, so a shard that receives \<open>n\<close> sets with distinct keys holds \<open>n\<close>
  entries. The code ignores the option and keeps the default capacity 100: a store of one
  shard constructed with capacity option 0 holds 100 entries after 101 sets with distinct
  keys.
\<close>

theorem zero_capacity_option_bounded:
  "distinct (map fst (numbered_keys 101)) \<and> length (numbered_keys 101) = 101 \<and>
   bind_err (NewShardedCache [WithShardCount 1, WithShardCapacity 0]) (\<lambda>sc.
     bind_err (Sets sc (numbered_keys 101)) (\<lambda>sc'.
       Inr (map (\<lambda>s. length (lru s)) (shards sc')))) = Inr [100]"
proof -
  define sc where "sc = \<lparr>shards = [newShard 100], shardCount = 1, shardCapacity = 100\<rparr>"
  have new: "NewShardedCache [WithShardCount 1, WithShardCapacity 0] = Inr sc"
    by (simp add: NewShardedCache_def WithShardCount_def WithShardCapacity_def sc_def)
  from sets_new [OF numbered_keys_distinct, of 100 101] obtain s where
    s: "shard_sets (newShard 100) (numbered_keys 101) = Inr s" "length (lru s) = 100"
    by (auto simp: numbered_keys_length)
  have "Sets sc (numbered_keys 101) = Inr (sc\<lparr>shards := [s]\<rparr>)"
    using Sets_single [of sc "newShard 100" "numbered_keys 101"] s(1)
    by (simp add: sc_def bind_err_def)
  then show ?thesis using new s(2) numbered_keys_distinct numbered_keys_length
    by (simp add: bind_err_def)
qed

text \<open>
  C7, amended. A per-shard capacity option of 0 or a negative value is ignored: it leaves
  the cache under construction as it is, so the store is the one constructed without that
  option, and with that option alone every one of its 16 shards has the default capacity
  100. Only a shard created by \<^verbatim>\<open>newShard\<close> with a capacity of 0 or less is unbounded:
  after \<open>n\<close> sets with distinct keys it holds all \<open>n\<close> entries.
\<close>

theorem nonpositive_capacity_ignored:
  assumes "c \<le> 0"
  shows "WithShardCapacity c sc = sc \<and>
         NewShardedCache (opts1 @ WithShardCapacity c # opts2) = NewShardedCache (opts1 @ opts2) \<and>
         map_sum id (\<lambda>sc. map capacity (shards sc)) (NewShardedCache [WithShardCapacity c]) =
           Inr (replicate 16 100) \<and>
         (distinct (map fst kvs) \<longrightarrow>
            (\<exists>s. shard_sets (newShard c) kvs = Inr s \<and> length (lru s) = length kvs \<and>
                 card (dom (data s)) = length kvs))"
proof -
  have noop: "WithShardCapacity c = (\<lambda>sc. sc)" using assms by (simp add: WithShardCapacity_def)
  have "\<exists>s. shard_sets (newShard c) kvs = Inr s \<and> length (lru s) = length kvs \<and>
                 card (dom (data s)) = length kvs" if "distinct (map fst kvs)"
    using sets_new [OF that, of c] assms inv_card by fastforce
  then show ?thesis using noop by (simp add: NewShardedCache_def newShard_def)
qed

theorem nonpositive_capacity_ignored_witness:
  "(0::int) \<le> 0 \<and>
   NewShardedCache [WithShardCount 4, WithShardCapacity 0] = NewShardedCache [WithShardCount 4] \<and>
   distinct (map fst [(''a'', ''1''), (''b'', ''2''), (''c'', ''3'')]) \<and>
   (\<exists>s. shard_sets (newShard 0) [(''a'', ''1''), (''b'', ''2''), (''c'', ''3'')] = Inr s \<and>
        length (lru s) = 3)"
proof -
  have 1: "(0::int) \<le> 0" by simp
  have 2: "distinct (map fst [(''a'', ''1''), (''b'', ''2''), (''c'', ''3'')])" by simp
  from nonpositive_capacity_ignored [OF 1,
      of "\<lparr>shards = [], shardCount = 16, shardCapacity = 100\<rparr>"
      "[WithShardCount 4]" "[]" "[(''a'', ''1''), (''b'', ''2''), (''c'', ''3'')]"] 2
  have "NewShardedCache [WithShardCount 4, WithShardCapacity 0] = NewShardedCache [WithShardCount 4]"
    "\<exists>s. shard_sets (newShard 0) [(''a'', ''1''), (''b'', ''2''), (''c'', ''3'')] = Inr s \<and>
        length (lru s) = length [(''a'', ''1''), (''b'', ''2''), (''c'', ''3'')]"
    by auto
  then show ?thesis by (simp add: numeral_3_eq_3)
qed

text \<open>
  C8 (delete is idempotent, with no error on either call), at the input where the code
  breaks it: on the store constructed with \<^verbatim>\<open>WithShardCount(4294967296)\<close>, which has
  that count and as many shards, \<^verbatim>\<open>Delete\<close> panics with an integer division by zero in
  the selection of the shard.
\<close>

theorem store_delete_panics_at_2_32:
  "map_sum id (\<lambda>sc. (shardCount sc, length (shards sc)))
     (NewShardedCache [WithShardCount 4294967296]) = Inr (4294967296, 4294967296) \<and>
   bind_err (NewShardedCache [WithShardCount 4294967296]) (\<lambda>sc. Delete sc ''k'')
     = Inl DivideByZeroPanic"
  by (simp add: NewShardedCache_def WithShardCount_def getShard_def bind_err_def Delete_def)

text \<open>
  X4. On the shard, delete is idempotent. In every shard state, deleting a key twice gives
  the state that deleting it once gives; after it the key is absent, every other key has
  the binding and the value it had and the entries are untouched; in a reachable state
  the keys of the list are the earlier ones in their order, without the deleted key.
  \<^verbatim>\<open>delete\<close> has no error result.
\<close>

theorem delete_idempotent:
  "shard_delete (shard_delete s k) k = shard_delete s k \<and>
   data (shard_delete s k) k = None \<and>
   (\<forall>k'. k' \<noteq> k \<longrightarrow> data (shard_delete s k) k' = data s k' \<and>
      peek (shard_delete s k) k' = peek s k') \<and>
   store (shard_delete s k) = store s \<and>
   (reachable s \<longrightarrow> lru_keys (shard_delete s k) = remove1 k (lru_keys s))"
  using delete_twice [of s k] delete_frame [of s k] delete_lru_keys [OF reachable_inv, of s k]
  by blast

theorem delete_idempotent_witness:
  "\<exists>s. shard_set (newShard 2) ''a'' ''1'' = Inr s \<and> reachable s \<and>
      shard_delete (shard_delete s ''a'') ''a'' = shard_delete s ''a'' \<and>
      data (shard_delete s ''a'') ''a'' = None \<and>
      lru_keys (shard_delete s ''a'') = remove1 ''a'' (lru_keys s)"
proof -
  obtain s where 1: "shard_set (newShard 2) ''a'' ''1'' = Inr s" using set_first by blast
  have 2: "reachable s" using reachable.r_set [OF reachable.r_new 1] .
  from delete_idempotent [of s "''a''"] 1 2 show ?thesis by blast
qed

text \<open>
  X5. Through the store, for every list of options made by \<^verbatim>\<open>WithShardCount\<close> and
  \<^verbatim>\<open>WithShardCapacity\<close> that gives a shard count below \<open>2 ^ 32\<close>, and after any calls of
  \<^verbatim>\<open>Set\<close>, \<^verbatim>\<open>Get\<close> and \<^verbatim>\<open>Delete\<close>: \<^verbatim>\<open>Delete\<close> succeeds, a second \<^verbatim>\<open>Delete\<close> of the
  same key succeeds and gives the same store, the key is then absent (\<^verbatim>\<open>Get\<close> fails with
  \<open>NotFound\<close>), every other shard is as it was, and in the key's shard every other key
  keeps its value and the keys keep their recency order.
\<close>

theorem store_delete_idempotent:
  assumes "\<forall>opt \<in> set opts. opt \<in> range WithShardCount \<union> range WithShardCapacity"
    "NewShardedCache opts = Inr sc0" "shardCount sc0 < 2 ^ 32" "evolves sc0 sc"
  shows "\<exists>i sc1. getShard sc k = Inr i \<and> i < length (shards sc) \<and>
           Delete sc k = Inr sc1 \<and> Delete sc1 k = Inr sc1 \<and>
           fst (Get sc1 k) = Inl NotFound \<and>
           data (shards sc1 ! i) k = None \<and>
           length (shards sc1) = length (shards sc) \<and>
           (\<forall>j. j \<noteq> i \<longrightarrow> shards sc1 ! j = shards sc ! j) \<and>
           lru_keys (shards sc1 ! i) = remove1 k (lru_keys (shards sc ! i)) \<and>
           (\<forall>k'. k' \<noteq> k \<longrightarrow> peek (shards sc1 ! i) k' = peek (shards sc ! i) k') \<and>
           shardCount sc1 = shardCount sc \<and> shardCapacity sc1 = shardCapacity sc"
proof -
  have ok: "store_ok sc" using store_ok_evolves [OF assms(4) store_ok_New [OF assms(1-3)]] .
  from store_ok_getShard [OF ok, of k] obtain i where
    i: "getShard sc k = Inr i" "i < length (shards sc)" "reachable (shards sc ! i)" by blast
  define sc1 where "sc1 = sc\<lparr>shards := (shards sc)[i := shard_delete (shards sc ! i) k]\<rparr>"
  have del: "Delete sc k = Inr sc1" using i(1) by (simp add: Delete_def bind_err_def sc1_def)
  have del2: "Delete sc1 k = Inr sc1" using del by (rule Delete_twice)
  have at_i: "shards sc1 ! i = shard_delete (shards sc ! i) k" using i(2) by (simp add: sc1_def)
  have "getShard sc1 k = Inr i" using i(1) getShard_cong [of sc1 sc k] by (simp add: sc1_def)
  then have get: "fst (Get sc1 k) = Inl NotFound"
    using at_i delete_frame [of "shards sc ! i" k]
    by (simp add: Get_def shard_get_def split: prod.splits)
  have keys: "lru_keys (shards sc1 ! i) = remove1 k (lru_keys (shards sc ! i))"
    using delete_lru_keys [OF reachable_inv [OF i(3)], of k] at_i by simp
  have others: "\<forall>j. j \<noteq> i \<longrightarrow> shards sc1 ! j = shards sc ! j" by (simp add: sc1_def)
  have "shardCount sc1 = shardCount sc" "shardCapacity sc1 = shardCapacity sc"
    "length (shards sc1) = length (shards sc)" by (simp_all add: sc1_def)
  then show ?thesis
    using i(1,2) del del2 get keys others at_i delete_frame [of "shards sc ! i" k] by auto
qed

theorem store_delete_idempotent_witness:
  "(\<forall>opt \<in> set [WithShardCount 4]. opt \<in> range WithShardCount \<union> range WithShardCapacity) \<and>
   (\<exists>sc sc1. NewShardedCache [WithShardCount 4] = Inr sc \<and> shardCount sc < 2 ^ 32 \<and>
      evolves sc sc \<and> Delete sc ''foo'' = Inr sc1 \<and> Delete sc1 ''foo'' = Inr sc1 \<and>
      fst (Get sc1 ''foo'') = Inl NotFound)"
proof -
  have 1: "\<forall>opt \<in> set [WithShardCount 4].
      opt \<in> range WithShardCount \<union> range WithShardCapacity" by auto
  obtain sc where 2: "NewShardedCache [WithShardCount 4] = Inr sc" and c: "shardCount sc = 4"
    by (simp add: NewShardedCache_def WithShardCount_def)
  have 3: "shardCount sc < 2 ^ 32" using c by simp
  have 4: "evolves sc sc" by (rule evolves.e_refl)
  from store_delete_idempotent [OF 1 2 3 4, of "''foo''"] 1 2 3 4
  show ?thesis by blast
qed

text \<open>
  C10 (shard lookup cannot fail), at the input where the code breaks it: a store
  constructed with \<^verbatim>\<open>WithShardCount(4294967296)\<close>, a positive \<^verbatim>\<open>int\<close> of a 64-bit
  platform. The count is accepted and the slice has that many shards, but
  \<^verbatim>\<open>uint32(sc.shardCount)\<close> is 0, so selecting a shard divides by zero and \<^verbatim>\<open>Set\<close>
  panics.
\<close>

theorem shard_lookup_divide_by_zero:
  "map_sum id (\<lambda>sc. (shardCount sc, length (shards sc)))
     (NewShardedCache [WithShardCount 4294967296]) = Inr (4294967296, 4294967296) \<and>
   bind_err (NewShardedCache [WithShardCount 4294967296]) (\<lambda>sc. getShard sc ''a'')
     = Inl DivideByZeroPanic \<and>
   bind_err (NewShardedCache [WithShardCount 4294967296]) (\<lambda>sc. Set sc ''a'' ''1'')
     = Inl DivideByZeroPanic"
  by (simp add: NewShardedCache_def WithShardCount_def getShard_def bind_err_def Set_def)

text \<open>
  X1. For every list of options made by \<^verbatim>\<open>WithShardCount\<close> and \<^verbatim>\<open>WithShardCapacity\<close>,
  whatever their arguments, construction fails only in \<^verbatim>\<open>make\<close>, and not at all when
  every count given is at most \<open>2 ^ 45\<close>. A store that is constructed has a shard count
  from 1 to \<open>2 ^ 45\<close>, a capacity of at least 1 and as many shards as the count says;
  selecting a shard never indexes out of range, and it succeeds for every key when the
  count is below \<open>2 ^ 32\<close>.
\<close>

theorem shard_lookup_safe_below_2_32:
  assumes "\<forall>opt \<in> set opts. opt \<in> range WithShardCount \<union> range WithShardCapacity"
  shows "(NewShardedCache opts = Inl MakeSlicePanic \<or> (\<exists>sc. NewShardedCache opts = Inr sc)) \<and>
         ((\<forall>opt \<in> set opts. opt \<in> WithShardCount ` {..2 ^ 45} \<union> range WithShardCapacity) \<longrightarrow>
            (\<exists>sc. NewShardedCache opts = Inr sc)) \<and>
         (\<forall>sc. NewShardedCache opts = Inr sc \<longrightarrow>
            1 \<le> shardCount sc \<and> shardCount sc \<le> 2 ^ 45 \<and> 1 \<le> shardCapacity sc \<and>
            int (length (shards sc)) = shardCount sc \<and>
            (\<forall>k. getShard sc k \<noteq> Inl IndexOutOfRangePanic) \<and>
            (shardCount sc < 2 ^ 32 \<longrightarrow>
               (\<forall>k. \<exists>i. getShard sc k = Inr i \<and> i < length (shards sc))))"
proof -
  define z where
    "z = foldl (\<lambda>sc opt. opt sc) \<lparr>shards = [], shardCount = 16, shardCapacity = 100\<rparr> opts"
  have pos: "1 \<le> shardCount z" "1 \<le> shardCapacity z"
    using foldl_opts_positive [OF assms, of "\<lparr>shards = [], shardCount = 16, shardCapacity = 100\<rparr>"]
    by (simp_all add: z_def)
  have new: "NewShardedCache opts =
      (if 2 ^ 45 < shardCount z then Inl MakeSlicePanic
       else Inr (z\<lparr>shards := replicate (nat (shardCount z)) (newShard (shardCapacity z))\<rparr>))"
    using pos by (simp add: NewShardedCache_def Let_def z_def [symmetric])
  have total: "NewShardedCache opts = Inl MakeSlicePanic \<or> (\<exists>sc. NewShardedCache opts = Inr sc)"
    by (simp add: new)
  have small: "\<exists>sc. NewShardedCache opts = Inr sc"
    if "\<forall>opt \<in> set opts. opt \<in> WithShardCount ` {..2 ^ 45} \<union> range WithShardCapacity"
  proof -
    have "shardCount z \<le> 2 ^ 45"
      using foldl_opts_bounded [OF that, of "\<lparr>shards = [], shardCount = 16, shardCapacity = 100\<rparr>"]
      by (simp add: z_def)
    then show ?thesis by (simp add: new)
  qed
  have safe: "1 \<le> shardCount sc \<and> shardCount sc \<le> 2 ^ 45 \<and> 1 \<le> shardCapacity sc \<and>
            int (length (shards sc)) = shardCount sc \<and>
            (\<forall>k. getShard sc k \<noteq> Inl IndexOutOfRangePanic) \<and>
            (shardCount sc < 2 ^ 32 \<longrightarrow>
               (\<forall>k. \<exists>i. getShard sc k = Inr i \<and> i < length (shards sc)))"
    if sc: "NewShardedCache opts = Inr sc" for sc
  proof -
    have eq: "sc = z\<lparr>shards := replicate (nat (shardCount z)) (newShard (shardCapacity z))\<rparr>"
      and le: "shardCount z \<le> 2 ^ 45"
      using sc by (simp_all add: new split: if_splits)
    have shape: "0 \<le> shardCount sc" "length (shards sc) = nat (shardCount sc)"
      using pos by (simp_all add: eq)
    note g = getShard_in_range [OF shape]
    have "getShard sc k \<noteq> Inl IndexOutOfRangePanic" for k by (simp add: g)
    moreover have "\<exists>i. getShard sc k = Inr i \<and> i < length (shards sc)"
      if "shardCount sc < 2 ^ 32" for k
    proof -
      have "(word_of_int (shardCount sc) :: 32 word) \<noteq> 0"
        using uint32_nonzero [OF _ that] pos by (simp add: eq)
      then have "getShard sc k = Inr (unat (fnv32a k mod word_of_int (shardCount sc)))"
        by (simp add: g)
      then show ?thesis using getShard_bound by blast
    qed
    ultimately show ?thesis using pos le shape by (auto simp: eq)
  qed
  show ?thesis using total small safe by blast
qed

theorem shard_lookup_safe_below_2_32_witness:
  "(\<forall>opt \<in> set [WithShardCount 4, WithShardCapacity 0].
      opt \<in> range WithShardCount \<union> range WithShardCapacity) \<and>
   (\<exists>sc. NewShardedCache [WithShardCount 4, WithShardCapacity 0] = Inr sc \<and> shardCount sc = 4 \<and>
      (\<exists>i. getShard sc ''foo'' = Inr i \<and> i < length (shards sc)))"
proof -
  have 1: "\<forall>opt \<in> set [WithShardCount 4, WithShardCapacity 0].
      opt \<in> range WithShardCount \<union> range WithShardCapacity" by auto
  obtain sc where 2: "NewShardedCache [WithShardCount 4, WithShardCapacity 0] = Inr sc"
    and c: "shardCount sc = 4"
    by (simp add: NewShardedCache_def WithShardCount_def WithShardCapacity_def)
  from shard_lookup_safe_below_2_32 [OF 1] 2 c
  have "\<exists>i. getShard sc ''foo'' = Inr i \<and> i < length (shards sc)" by auto
  then show ?thesis using 1 2 c by blast
qed

text \<open>
  X2. Through the store, for every list of options made by \<^verbatim>\<open>WithShardCount\<close> and
  \<^verbatim>\<open>WithShardCapacity\<close> that gives a shard count below \<open>2 ^ 32\<close>, and after any calls of
  \<^verbatim>\<open>Set\<close>, \<^verbatim>\<open>Get\<close> and \<^verbatim>\<open>Delete\<close>: \<^verbatim>\<open>Set\<close> and \<^verbatim>\<open>Delete\<close> succeed, and \<^verbatim>\<open>Get\<close>
  fails only with \<open>NotFound\<close>, exactly when the key is absent from the shard selected for
  it, and then leaves the store as it was.
\<close>

theorem store_operations_total:
  assumes "\<forall>opt \<in> set opts. opt \<in> range WithShardCount \<union> range WithShardCapacity"
    "NewShardedCache opts = Inr sc0" "shardCount sc0 < 2 ^ 32" "evolves sc0 sc"
  shows "(\<exists>sc'. Set sc k v = Inr sc') \<and> (\<exists>sc'. Delete sc k = Inr sc') \<and>
         (\<forall>e. fst (Get sc k) = Inl e \<longrightarrow> e = NotFound \<and> snd (Get sc k) = sc) \<and>
         (\<exists>i. getShard sc k = Inr i \<and> i < length (shards sc) \<and>
            (fst (Get sc k) = Inl NotFound \<longleftrightarrow> data (shards sc ! i) k = None))"
proof -
  have ok: "store_ok sc" using store_ok_evolves [OF assms(4) store_ok_New [OF assms(1-3)]] .
  from store_ok_getShard [OF ok, of k] obtain i where
    i: "getShard sc k = Inr i" "i < length (shards sc)" "reachable (shards sc ! i)" by blast
  have inv: "shard_inv (shards sc ! i)" using i(3) by (rule reachable_inv)
  from set_total [OF inv, of k v] have "\<exists>sc'. Set sc k v = Inr sc'"
    using i(1) by (auto simp: Set_def bind_err_def)
  moreover have "\<exists>sc'. Delete sc k = Inr sc'" using i(1) by (simp add: Delete_def bind_err_def)
  moreover have "fst (Get sc k) = fst (shard_get (shards sc ! i) k)"
    using i(1) by (simp add: Get_def split: prod.splits)
  moreover have "snd (Get sc k) = sc" if "data (shards sc ! i) k = None"
    using i(1) that by (simp add: Get_def shard_get_def)
  ultimately show ?thesis using i(1,2) get_fails_iff [OF inv, of k] by auto
qed

theorem store_operations_total_witness:
  "(\<forall>opt \<in> set [WithShardCount 4]. opt \<in> range WithShardCount \<union> range WithShardCapacity) \<and>
   (\<exists>sc. NewShardedCache [WithShardCount 4] = Inr sc \<and> shardCount sc < 2 ^ 32 \<and>
      evolves sc sc \<and> (\<exists>sc'. Set sc ''foo'' ''bar'' = Inr sc') \<and>
      (\<exists>sc'. Delete sc ''foo'' = Inr sc'))"
proof -
  have 1: "\<forall>opt \<in> set [WithShardCount 4].
      opt \<in> range WithShardCount \<union> range WithShardCapacity" by auto
  obtain sc where 2: "NewShardedCache [WithShardCount 4] = Inr sc" and c: "shardCount sc = 4"
    by (simp add: NewShardedCache_def WithShardCount_def)
  have 3: "shardCount sc < 2 ^ 32" using c by simp
  have 4: "evolves sc sc" by (rule evolves.e_refl)
  from store_operations_total [OF 1 2 3 4, of "''foo''" "''bar''"] 1 2 3 4
  show ?thesis by blast
qed

end
